theory Spec2Isabelle
  imports Complex_Main "HOL-Library.Word" "HOL-Library.Log_Nat"
begin

unbundle bit_operations_syntax

section \<open>Machine types and constants of main.cpp\<close>

text \<open>
  Both \<open>int\<close> and \<open>uint32_t\<close> are 32 bits wide. A value of either type is a
  \<open>32 word\<close>; an \<open>int\<close> is read through \<open>sint\<close> and compared with \<open><s\<close>, a
  \<open>uint32_t\<close> is read through \<open>unat\<close>/\<open>uint\<close> and compared with \<open><\<close>.
\<close>

type_synonym int32 = "32 word"
type_synonym uint32 = "32 word"

text \<open>Line 29: \<open>const int maxSentenceOperations = 0b100000000;\<close> (a one and eight zeros).\<close>

definition maxSentenceOperations :: int32 where
  "maxSentenceOperations = push_bit 8 1"

text \<open>Line 32: \<open>static const int nearMissDistance = 25;\<close>\<close>

definition nearMissDistance :: int where
  "nearMissDistance = 25"

section \<open>Formatted output to a string stream\<close>

text \<open>\<open>out << std::dec << n\<close> for a non-negative \<open>n\<close>: the decimal digits, no padding.\<close>

definition decDigit :: "nat \<Rightarrow> char" where
  "decDigit d = ''0123456789'' ! d"

fun decString :: "nat \<Rightarrow> string" where
  "decString n = (if n < 10 then [decDigit n] else decString (n div 10) @ [decDigit (n mod 10)])"

declare decString.simps [simp del]

text \<open>
  \<open>out << std::hex << v\<close>: the hexadecimal digits of the unsigned value, lower case,
  without leading zeros (a single \<open>0\<close> for zero).
\<close>

definition hexDigit :: "nat \<Rightarrow> char" where
  "hexDigit d = ''0123456789abcdef'' ! d"

fun hexString :: "nat \<Rightarrow> string" where
  "hexString n = (if n < 16 then [hexDigit n] else hexString (n div 16) @ [hexDigit (n mod 16)])"

declare hexString.simps [simp del]

text \<open>\<open>std::setw(w) << std::setfill(c)\<close>: a shorter field is filled on the left.\<close>

definition setw_fill :: "nat \<Rightarrow> char \<Rightarrow> string \<Rightarrow> string" where
  "setw_fill w c s = replicate (w - length s) c @ s"

section \<open>generateSentence (lines 108-200)\<close>

text \<open>
  The first \<open>switch\<close>: the text written for the opening phrase. The selector is
  \<open>(operation & 0b1100000) >> 5\<close>; a value other than 0..3 matches no case.
\<close>

definition openingText :: "int32 \<Rightarrow> bool \<Rightarrow> string" where
  "openingText openingPhrase capitalFirstLetter =
     (if openingPhrase = 0 then ''''
      else if openingPhrase = 1 then
        (if capitalFirstLetter then ''B'' else ''b'') @ ''elieve it or not, ''
      else if openingPhrase = 2 then
        (if capitalFirstLetter then ''U'' else ''u'') @ ''seful for testing, ''
      else if openingPhrase = 3 then
        (if capitalFirstLetter then ''H'' else ''h'') @ ''andily, ''
      else '''')"

text \<open>Cases 1, 2 and 3 of the first \<open>switch\<close> reset \<open>capitalFirstLetter\<close>.\<close>

definition capitalAfterOpening :: "int32 \<Rightarrow> bool \<Rightarrow> bool" where
  "capitalAfterOpening openingPhrase capitalFirstLetter =
     (if openingPhrase = 1 \<or> openingPhrase = 2 \<or> openingPhrase = 3 then False
      else capitalFirstLetter)"

text \<open>The second \<open>switch\<close>: the sentence body, the separator and the checksum string.\<close>

definition bodyText :: "int32 \<Rightarrow> bool \<Rightarrow> bool \<Rightarrow> string \<Rightarrow> string" where
  "bodyText basicText capitalFirstLetter col crcString =
     (if basicText = 0 then
        (if capitalFirstLetter then ''T'' else ''t'') @ ''his text has a CRC of''
          @ (if col then '': '' else '' '') @ crcString
      else if basicText = 1 then
        (if capitalFirstLetter then ''T'' else ''t'') @ ''his string has a CRC of''
          @ (if col then '': '' else '' '') @ crcString
      else if basicText = 2 then
        (if capitalFirstLetter then ''T'' else ''t'') @ ''his has a CRC of''
          @ (if col then '': '' else '' '') @ crcString
      else if basicText = 3 then
        (if capitalFirstLetter then ''I '' else ''I happen to '') @ ''have a CRC value of''
          @ (if col then '': '' else '' '') @ crcString
      else '''')"

text \<open>
  Lines 177-187. \<open>(int) log10((double) n) + 1\<close> is the number of decimal digits of a
  positive \<open>n\<close>, which is \<open>floorlog 10 n = nat \<lfloor>log 10 n\<rfloor> + 1\<close>; the logarithm is
  taken exactly (for the two-digit lengths that occur with an 8-character checksum
  string the \<open>double\<close> lies well inside the interval from 1 to 2). The argument is
  never 0 here: the stream already holds the 17 characters of the length phrase.
  Lengths are far below \<open>2 ^ 31\<close>, so the \<open>int\<close> holding them is modelled by \<open>nat\<close>.
\<close>

definition selfLength :: "nat \<Rightarrow> bool \<Rightarrow> nat" where
  "selfLength outLength fullStop =
     (let strLen = outLength + (if fullStop then 1 else 0);
          charsToStoreLen = floorlog 10 strLen;
          strLen2 = strLen + charsToStoreLen;
          newCharsToStoreLen = floorlog 10 strLen2
      in if newCharsToStoreLen > charsToStoreLen then strLen2 + 1 else strLen2)"

definition lengthText :: "string \<Rightarrow> bool \<Rightarrow> string" where
  "lengthText out fullStop =
     (let out2 = out @ '' and a length of ''
      in out2 @ decString (selfLength (length out2) fullStop))"

definition generateSentence :: "int32 \<Rightarrow> string \<Rightarrow> string" where
  "generateSentence operation crcString =
     (let basicText = operation AND 3;
          capitalFirstLetter = (operation AND 4 \<noteq> 0);
          fullStop = (operation AND 8 \<noteq> 0);
          col = (operation AND 16 \<noteq> 0);
          openingPhrase = signed_drop_bit 5 (operation AND 96);
          appendLength = (operation AND 128 \<noteq> 0);
          out1 = openingText openingPhrase capitalFirstLetter;
          out2 = out1 @ bodyText basicText
                   (capitalAfterOpening openingPhrase capitalFirstLetter) col crcString;
          out3 = (if appendLength then lengthText out2 fullStop else out2)
      in if fullStop then out3 @ ''.'' else out3)"

section \<open>createCRCString (lines 284-299)\<close>

text \<open>\<open>toupper\<close> and \<open>isalpha\<close> of \<open><ctype.h>\<close> in the C locale, on character codes.\<close>

definition toupper :: "char \<Rightarrow> char" where
  "toupper c =
     (let n = (of_char c :: nat) in if 97 \<le> n \<and> n \<le> 122 then char_of (n - 32) else c)"

definition isalpha :: "char \<Rightarrow> bool" where
  "isalpha c =
     (let n = (of_char c :: nat) in (65 \<le> n \<and> n \<le> 90) \<or> (97 \<le> n \<and> n \<le> 122))"

text \<open>
  The parameter is an \<open>int\<close>. With \<open>std::hex\<close> the stream writes an \<open>int\<close> through its
  unsigned 32-bit representation, which is \<open>unat\<close> of the word.
\<close>

definition createCRCString :: "int32 \<Rightarrow> bool \<Rightarrow> string" where
  "createCRCString crcValue upperCase =
     (let crcString = setw_fill 8 (CHR ''0'') (hexString (unat crcValue))
      in if upperCase then map toupper crcString else crcString)"

text \<open>
  Line 229 passes the \<open>uint32_t\<close> candidate to the \<open>int\<close> parameter: the conversion
  keeps the 32 bits (the value modulo \<open>2 ^ 32\<close>, read as two's complement).
\<close>

definition int_of_uint32 :: "uint32 \<Rightarrow> int32" where
  "int_of_uint32 i = word_of_int (uint i)"

section \<open>testSentences (lines 208-265)\<close>

text \<open>
  What the worker writes to the console. A hit block and a near-miss line carry the
  arguments of \<open>getInfoString\<close> (candidate, operation, checksum) and the sentence; the
  elapsed time of the closing line is wall-clock time and is left out.
\<close>

datatype line =
    ProgressLine int
  | HitLine uint32 int32 uint32 string
  | NearMissLine uint32 int32 uint32 string
  | DoneLine uint32 uint32

fun isHit :: "line \<Rightarrow> bool" where
  "isHit (HitLine i operation crc sentence) = True"
| "isHit l = False"

fun isNearMiss :: "line \<Rightarrow> bool" where
  "isNearMiss (NearMissLine i operation crc sentence) = True"
| "isNearMiss l = False"

text \<open>
  Lines 239-248. \<open>long\<close> has 64 bits (LP64), so \<open>(long) crc - (long) i\<close> is the exact
  difference of the two unsigned values.
\<close>

definition checkSentence :: "uint32 \<Rightarrow> int32 \<Rightarrow> uint32 \<Rightarrow> string \<Rightarrow> line list" where
  "checkSentence i operation crc sentence =
     (if crc = i then [HitLine i operation crc sentence]
      else if \<bar>uint crc - uint i\<bar> < nearMissDistance
        then [NearMissLine i operation crc sentence]
      else [])"

text \<open>
  One run of the innermost loop body (lines 235-248), recorded with what it printed.
  \<open>CRC::Calculate\<close> comes from the third-party header \<open>3rd_party/CRC.h\<close>; it is the
  parameter \<open>crc32\<close>.
\<close>

record test =
  t_upperCase :: bool
  t_operation :: int32
  t_sentence :: string
  t_crc :: uint32
  t_printed :: "line list"

definition testOperation ::
    "(string \<Rightarrow> uint32) \<Rightarrow> uint32 \<Rightarrow> bool \<Rightarrow> string \<Rightarrow> int32 \<Rightarrow> test" where
  "testOperation crc32 i upperCase crcString operation =
     (let sentence = generateSentence operation crcString;
          crc = crc32 sentence
      in \<lparr> t_upperCase = upperCase, t_operation = operation, t_sentence = sentence,
           t_crc = crc, t_printed = checkSentence i operation crc sentence \<rparr>)"

text \<open>
  Line 232: \<open>for (int operation = 0; operation < maxSentenceOperations; operation++)\<close>.
  The body does not change the counter, so the loop is its body mapped over the codes
  the header runs through.
\<close>

function operationCodesFrom :: "int32 \<Rightarrow> int32 list" where
  "operationCodesFrom operation =
     (if operation <s maxSentenceOperations
      then operation # operationCodesFrom (operation + 1) else [])"
  by pat_completeness auto
termination
proof (relation "measure (\<lambda>operation. nat (sint maxSentenceOperations - sint operation))")
  show "wf (measure (\<lambda>operation. nat (sint maxSentenceOperations - sint operation)))"
    by simp
next
  fix operation :: int32
  assume lt: "operation <s maxSentenceOperations"
  then have "sint operation < 256"
    by (simp add: word_sless_alt maxSentenceOperations_def)
  moreover have "- (2 ^ 31) \<le> sint operation"
    using sint_ge [of operation] by simp
  ultimately have "sint (operation + 1) = sint operation + 1"
    by (simp add: sint_word_ariths signed_take_bit_int_eq_self)
  with lt show "(operation + 1, operation)
      \<in> measure (\<lambda>operation. nat (sint maxSentenceOperations - sint operation))"
    by (simp add: word_sless_alt)
qed

declare operationCodesFrom.simps [simp del]

definition operationLoop ::
    "(string \<Rightarrow> uint32) \<Rightarrow> uint32 \<Rightarrow> bool \<Rightarrow> string \<Rightarrow> test list" where
  "operationLoop crc32 i upperCase crcString =
     map (testOperation crc32 i upperCase crcString) (operationCodesFrom 0)"

text \<open>
  Lines 226-256: \<open>for (int c = 0; c < 2; c++)\<close>, left by \<open>break\<close> when the checksum
  string of the pass just done has no letter (\<open>std::count_if\<close> with \<open>isalpha\<close>).
\<close>

function caseLoop :: "(string \<Rightarrow> uint32) \<Rightarrow> uint32 \<Rightarrow> int32 \<Rightarrow> test list" where
  "caseLoop crc32 i c =
     (if c <s 2 then
        (let crcString = createCRCString (int_of_uint32 i) (c = 1);
             tests = operationLoop crc32 i (c = 1) crcString;
             numLetters = length (filter isalpha crcString)
         in if numLetters = 0 then tests else tests @ caseLoop crc32 i (c + 1))
      else [])"
  by pat_completeness auto
termination
proof (relation "measure (\<lambda>(crc32, i, c). nat (2 - sint c))")
  show "wf (measure (\<lambda>(crc32 :: string \<Rightarrow> uint32, i :: uint32, c :: int32). nat (2 - sint c)))"
    by simp
next
  fix crc32 :: "string \<Rightarrow> uint32" and i :: uint32 and c :: int32
  assume lt: "c <s 2"
  then have "sint c < 2"
    by (simp add: word_sless_alt)
  moreover have "- (2 ^ 31) \<le> sint c"
    using sint_ge [of c] by simp
  ultimately have "sint (c + 1) = sint c + 1"
    by (simp add: sint_word_ariths signed_take_bit_int_eq_self)
  with lt show "((crc32, i, c + 1), (crc32, i, c)) \<in> measure (\<lambda>(crc32, i, c). nat (2 - sint c))"
    by (simp add: word_sless_alt)
qed

declare caseLoop.simps [simp del]

text \<open>
  The arithmetic of \<open>double\<close> (IEEE 754 binary64, round to nearest, ties to even): the
  value of an operation is its exact result rounded to 53 significant bits. \<open>binary64\<close>
  is that rounding for results in the normal range (no overflow, no subnormal numbers):
  a result \<open>x\<close> with \<open>2 ^ e \<le> \<bar>x\<bar> < 2 ^ (e + 1)\<close> is rounded to a multiple of
  \<open>2 ^ (e - 52)\<close>. The results rounded in line 218 are 0 or lie between \<open>2 ^ -32\<close> and
  101.
\<close>

definition roundEven :: "real \<Rightarrow> int" where
  "roundEven y =
     (let f = \<lfloor>y\<rfloor>; r = y - of_int f
      in if r < 1 / 2 then f else if 1 / 2 < r then f + 1 else if even f then f else f + 1)"

definition binary64 :: "real \<Rightarrow> real" where
  "binary64 x =
     (if x = 0 then 0
      else (let e = \<lfloor>log 2 \<bar>x\<bar>\<rfloor>; ulp = 2 powr of_int (e - 52)
            in of_int (roundEven (x / ulp)) * ulp))"

text \<open>
  Line 218: \<open>(int)((((double) i-start_inc) / (double)(end_ex - start_inc)) * 100.0)\<close>.
  The three conversions to \<open>double\<close> and the subtraction are exact (integers below
  \<open>2 ^ 53\<close>); the quotient and the product are each rounded to a \<open>double\<close>; the cast to
  \<open>int\<close> truncates towards zero.
\<close>

definition truncToInt :: "real \<Rightarrow> int" where
  "truncToInt x = (if 0 \<le> x then \<lfloor>x\<rfloor> else \<lceil>x\<rceil>)"

definition percentOf :: "uint32 \<Rightarrow> uint32 \<Rightarrow> uint32 \<Rightarrow> int" where
  "percentOf i start_inc end_ex =
     truncToInt (binary64 (binary64 ((real (unat i) - real (unat start_inc))
                                      / real (unat (end_ex - start_inc))) * 100))"

text \<open>
  Lines 217-223, with the global \<open>percentComplete\<close> passed in and returned.
  \<open>i % 0xff\<close> is unsigned.
\<close>

definition reportProgress ::
    "bool \<Rightarrow> uint32 \<Rightarrow> uint32 \<Rightarrow> uint32 \<Rightarrow> int \<Rightarrow> line list \<times> int" where
  "reportProgress reportPercentComplete start_inc end_ex i percentComplete =
     (if reportPercentComplete \<and> i mod 255 = 0 then
        (let per = percentOf i start_inc end_ex
         in if per \<noteq> percentComplete then ([ProgressLine per], per)
            else ([], percentComplete))
      else ([], percentComplete))"

text \<open>What the worker did for one candidate: the progress lines and the tests.\<close>

record candidateRun =
  r_candidate :: uint32
  r_progress :: "line list"
  r_tests :: "test list"

text \<open>Line 214: \<open>for (uint32_t i = start_inc; i < end_ex; i++)\<close>.\<close>

function candidateLoop ::
    "(string \<Rightarrow> uint32) \<Rightarrow> bool \<Rightarrow> uint32 \<Rightarrow> uint32 \<Rightarrow> uint32 \<Rightarrow> int
      \<Rightarrow> candidateRun list \<times> int" where
  "candidateLoop crc32 reportPercentComplete start_inc end_ex i percentComplete =
     (if i < end_ex then
        (let (progress, percentComplete2) =
               reportProgress reportPercentComplete start_inc end_ex i percentComplete;
             run = \<lparr> r_candidate = i, r_progress = progress, r_tests = caseLoop crc32 i 0 \<rparr>;
             (runs, percentComplete3) =
               candidateLoop crc32 reportPercentComplete start_inc end_ex (i + 1)
                 percentComplete2
         in (run # runs, percentComplete3))
      else ([], percentComplete))"
  by pat_completeness auto
termination
proof (relation "measure (\<lambda>(crc32, r, start_inc, end_ex, i, p). unat end_ex - unat i)")
  show "wf (measure (\<lambda>(crc32 :: string \<Rightarrow> uint32, r :: bool,
      start_inc :: uint32, end_ex :: uint32, i :: uint32, p :: int). unat end_ex - unat i))"
    by simp
next
  fix crc32 :: "string \<Rightarrow> uint32" and r :: bool
    and start_inc end_ex i :: uint32 and p :: int and x :: "line list \<times> int"
    and progress :: "line list" and p2 :: int and run :: candidateRun
  assume lt: "i < end_ex"
  then have "unat i < unat end_ex"
    by (simp add: word_less_nat_alt)
  moreover have "unat end_ex < 2 ^ 32"
    using unsigned_less [of end_ex] by simp
  ultimately have "unat (i + 1) = unat i + 1"
    by (simp add: unat_word_ariths)
  with \<open>unat i < unat end_ex\<close>
  show "((crc32, r, start_inc, end_ex, i + 1, p2), (crc32, r, start_inc, end_ex, i, p))
      \<in> measure (\<lambda>(crc32, r, start_inc, end_ex, i, p). unat end_ex - unat i)"
    by simp
qed

declare candidateLoop.simps [simp del]

definition testSentences ::
    "(string \<Rightarrow> uint32) \<Rightarrow> uint32 \<Rightarrow> uint32 \<Rightarrow> bool \<Rightarrow> int
      \<Rightarrow> (candidateRun list \<times> line) \<times> int" where
  "testSentences crc32 start_inc end_ex reportPercentComplete percentComplete =
     (let (runs, percentComplete2) =
            candidateLoop crc32 reportPercentComplete start_inc end_ex start_inc
              percentComplete
      in ((runs, DoneLine start_inc end_ex), percentComplete2))"

section \<open>main (lines 47-98)\<close>

text \<open>
  Lines 58-66. \<open>std::thread::hardware_concurrency()\<close> returns an \<open>unsigned int\<close>, stored
  in an \<open>int\<close>; \<open>std::max\<close> compares as \<open>int\<close>.
\<close>

definition numThreadsOf :: "uint32 \<Rightarrow> int32" where
  "numThreadsOf hardware_concurrency =
     (let numThreads = int_of_uint32 hardware_concurrency
      in if numThreads = 0 then 1
         else if numThreads - 1 <s 1 then 1 else numThreads - 1)"

text \<open>
  Lines 69-71. \<open>length / numThreads\<close> divides two unsigned values (the \<open>int\<close> operand is
  converted); \<open>numThreads\<close> is never 0.
\<close>

definition searchStart :: uint32 where
  "searchStart = 0"

definition searchLength :: uint32 where
  "searchLength = 0xffffffff"

definition bucketSizeOf :: "int32 \<Rightarrow> uint32" where
  "bucketSizeOf numThreads = searchLength div numThreads"

text \<open>
  Lines 77-87: one worker per pass, with \<open>(tStart, tEnd, isReporterThread)\<close>. The
  product \<open>i * bucketSize\<close> and the sums are \<open>uint32_t\<close> arithmetic.
\<close>

type_synonym workRange = "uint32 \<times> uint32 \<times> bool"

function launchLoop :: "int32 \<Rightarrow> uint32 \<Rightarrow> int32 \<Rightarrow> workRange list" where
  "launchLoop numThreads bucketSize i =
     (if i <s numThreads then
        (let tStart = searchStart + i * bucketSize;
             tEnd = min (tStart + bucketSize) (searchStart + searchLength);
             isReporterThread = (i = 0)
         in (tStart, tEnd, isReporterThread) # launchLoop numThreads bucketSize (i + 1))
      else [])"
  by pat_completeness auto
termination
proof (relation "measure (\<lambda>(numThreads, bucketSize, i). nat (sint numThreads - sint i))")
  show "wf (measure (\<lambda>(numThreads :: int32, bucketSize :: uint32, i :: int32).
      nat (sint numThreads - sint i)))"
    by simp
next
  fix numThreads :: int32 and bucketSize :: uint32 and i :: int32
    and tStart tEnd :: uint32 and isReporterThread :: bool
  assume lt: "i <s numThreads"
  then have "sint i < sint numThreads"
    by (simp add: word_sless_alt)
  moreover have "sint numThreads < 2 ^ 31"
    using sint_lt [of numThreads] by simp
  moreover have "- (2 ^ 31) \<le> sint i"
    using sint_ge [of i] by simp
  ultimately have "sint (i + 1) = sint i + 1"
    by (simp add: sint_word_ariths signed_take_bit_int_eq_self)
  with \<open>sint i < sint numThreads\<close>
  show "((numThreads, bucketSize, i + 1), (numThreads, bucketSize, i))
      \<in> measure (\<lambda>(numThreads, bucketSize, i). nat (sint numThreads - sint i))"
    by simp
qed

declare launchLoop.simps [simp del]

definition workRanges :: "uint32 \<Rightarrow> workRange list" where
  "workRanges hardware_concurrency =
     (let numThreads = numThreadsOf hardware_concurrency
      in launchLoop numThreads (bucketSizeOf numThreads) 0)"

text \<open>
  A candidate is tested when the loop of line 214 of some worker reaches it: it lies in
  the half-open range that worker was started with.
\<close>

fun assigned :: "workRange list \<Rightarrow> uint32 \<Rightarrow> bool" where
  "assigned [] v = False"
| "assigned ((tStart, tEnd, isReporterThread) # ranges) v =
     ((tStart \<le> v \<and> v < tEnd) \<or> assigned ranges v)"

section \<open>The rendering the specification asks for\<close>

text \<open>
  The 8-digit zero-padded hexadecimal representation of an unsigned value, written
  from the specification's words: the digit at position \<open>k\<close> from the left is the
  coefficient of \<open>16 ^ (7 - k)\<close>.
\<close>

definition hexRepr8 :: "nat \<Rightarrow> string" where
  "hexRepr8 v = map (\<lambda>k. hexDigit ((v div 16 ^ (7 - k)) mod 16)) [0..<8]"

section \<open>End-to-end scenarios of the sentence encoder\<close>

text \<open>
  C8. Operation code 0 with the checksum string "00000000" gives exactly
  "this text has a CRC of 00000000".
\<close>

theorem generateSentence_op0:
  "generateSentence 0 ''00000000'' = ''this text has a CRC of 00000000''"
  by (simp add: generateSentence_def openingText_def capitalAfterOpening_def bodyText_def)

text \<open>
  C9. An operation code whose body selector is 3, with the capitalise, full-stop and
  colon flags set, no opening phrase and no length clause, gives with the checksum
  string "CAFEBABE" exactly "I have a CRC value of: CAFEBABE.". The code with
  these fields and nothing else set is 31.
\<close>

theorem generateSentence_body3:
  "operation AND 3 = 3 \<and> operation AND 4 \<noteq> 0 \<and> operation AND 8 \<noteq> 0 \<and>
   operation AND 16 \<noteq> 0 \<and> signed_drop_bit 5 (operation AND 96) = 0 \<and>
   operation AND 128 = 0
   \<Longrightarrow> generateSentence operation ''CAFEBABE'' = ''I have a CRC value of: CAFEBABE.''"
  by (simp add: generateSentence_def openingText_def capitalAfterOpening_def bodyText_def)

theorem generateSentence_body3_witness:
  "(31 :: int32) AND 3 = 3 \<and> (31 :: int32) AND 4 \<noteq> 0 \<and> (31 :: int32) AND 8 \<noteq> 0 \<and>
   (31 :: int32) AND 16 \<noteq> 0 \<and> signed_drop_bit 5 ((31 :: int32) AND 96) = 0 \<and>
   (31 :: int32) AND 128 = 0 \<and>
   generateSentence 31 ''CAFEBABE'' = ''I have a CRC value of: CAFEBABE.''"
proof -
  have h: "(31 :: int32) AND 3 = 3 \<and> (31 :: int32) AND 4 \<noteq> 0 \<and> (31 :: int32) AND 8 \<noteq> 0 \<and>
   (31 :: int32) AND 16 \<noteq> 0 \<and> signed_drop_bit 5 ((31 :: int32) AND 96) = 0 \<and>
   (31 :: int32) AND 128 = 0"
    by simp
  from generateSentence_body3 [OF h] h show ?thesis by simp
qed

section \<open>The checksum string renderer\<close>

lemma length_hexString: "n < 16 ^ Suc k \<Longrightarrow> length (hexString n) \<le> Suc k"
proof (induction k arbitrary: n)
  case 0
  then show ?case by (simp add: hexString.simps)
next
  case (Suc k)
  show ?case
  proof (cases "n < 16")
    case True
    then show ?thesis by (simp add: hexString.simps)
  next
    case False
    from Suc.prems have "n div 16 < 16 ^ Suc k" by (simp add: less_mult_imp_div_less)
    from Suc.IH [OF this] False show ?thesis
      by (subst hexString.simps) simp
  qed
qed


lemma setw_fill_hexString_Suc:
  assumes "n < 16 ^ Suc (Suc k)"
  shows "setw_fill (Suc (Suc k)) (CHR ''0'') (hexString n) =
         setw_fill (Suc k) (CHR ''0'') (hexString (n div 16)) @ [hexDigit (n mod 16)]"
proof (cases "n < 16")
  case True
  then have "hexString n = [hexDigit n]" "hexString (n div 16) = [hexDigit 0]"
    by (simp_all add: hexString.simps)
  with True show ?thesis
    by (simp add: setw_fill_def hexDigit_def replicate_append_same)
next
  case False
  from assms have "n div 16 < 16 ^ Suc k" by (simp add: less_mult_imp_div_less)
  then have "length (hexString (n div 16)) \<le> Suc k" by (rule length_hexString)
  moreover from False have "hexString n = hexString (n div 16) @ [hexDigit (n mod 16)]"
    by (subst hexString.simps) simp
  ultimately show ?thesis
    by (simp add: setw_fill_def Suc_diff_le)
qed


lemma setw_fill_hexString:
  "n < 16 ^ Suc k \<Longrightarrow>
   setw_fill (Suc k) (CHR ''0'') (hexString n) =
   map (\<lambda>j. hexDigit ((n div 16 ^ (k - j)) mod 16)) [0..<Suc k]"
proof (induction k arbitrary: n)
  case 0
  then show ?case by (simp add: hexString.simps setw_fill_def)
next
  case (Suc k)
  from Suc.prems have lt: "n div 16 < 16 ^ Suc k" by (simp add: less_mult_imp_div_less)
  have "map (\<lambda>j. hexDigit ((n div 16 ^ (Suc k - j)) mod 16)) [0..<Suc k] =
        map (\<lambda>j. hexDigit (((n div 16) div 16 ^ (k - j)) mod 16)) [0..<Suc k]"
    by (rule map_cong) (auto simp: Suc_diff_le div_mult2_eq)
  with Suc.IH [OF lt] setw_fill_hexString_Suc [OF Suc.prems] show ?case
    by simp
qed


lemma createCRCString_lower: "createCRCString v False = hexRepr8 (unat v)"
proof -
  have e: "Suc 7 = 8" by simp
  have "unat v < 2 ^ 32" using unsigned_less [of v] by simp
  then have "unat v < 16 ^ Suc 7" by simp
  from setw_fill_hexString [OF this] show ?thesis
    unfolding createCRCString_def hexRepr8_def e by (simp only: Let_def if_False)
qed

lemma createCRCString_upper: "createCRCString v True = map toupper (createCRCString v False)"
  by (simp add: createCRCString_def)


lemma length_hexRepr8: "length (hexRepr8 v) = 8"
  by (simp add: hexRepr8_def)


lemma hexDigit_lower: "d < 16 \<Longrightarrow> hexDigit d \<in> set ''0123456789abcdef''"
  unfolding hexDigit_def by (rule nth_mem) simp


lemma hexRepr8_lower: "set (hexRepr8 v) \<subseteq> set ''0123456789abcdef''"
  unfolding hexRepr8_def set_map by (rule image_subsetI) (rule hexDigit_lower, simp)


lemma toupper_hexDigits: "map toupper ''0123456789abcdef'' = ''0123456789ABCDEF''"
  by code_simp


lemma toupper_hex:
  assumes "c \<in> set ''0123456789abcdef''"
  shows "toupper c \<in> set ''0123456789ABCDEF''"
proof -
  from assms have "toupper c \<in> set (map toupper ''0123456789abcdef'')"
    by (simp only: set_map) (rule imageI)
  then show ?thesis by (simp only: toupper_hexDigits)
qed


lemma toupper_not_alpha: "\<not> isalpha c \<Longrightarrow> toupper c = c"
  unfolding toupper_def isalpha_def Let_def by presburger

lemma map_toupper_no_letters:
  "length (filter isalpha s) = 0 \<Longrightarrow> map toupper s = s"
proof (induction s)
  case Nil
  show ?case by simp
next
  case (Cons c s)
  from Cons.prems have "\<not> isalpha c" "length (filter isalpha s) = 0"
    by (simp_all split: if_splits)
  with Cons.IH show ?case by (simp add: toupper_not_alpha)
qed

text \<open>
  C6. The renderer always returns exactly 8 characters: the hexadecimal digits of the
  value, most significant first and filled with zeros on the left (the digit at position
  \<open>k\<close> is the coefficient of \<open>16 ^ (7 - k)\<close>), in lower case or, when asked, in
  upper case. \<open>render(0, false)\<close> is "00000000", \<open>render(0xDEADBEEF, true)\<close> is
  "DEADBEEF", and \<open>0xab\<close> is rendered "000000ab" and "000000AB".
\<close>

theorem createCRCString_eight_chars:
  "length (createCRCString crcValue upperCase) = 8 \<and>
   createCRCString 0 False = ''00000000'' \<and>
   createCRCString 0xDEADBEEF True = ''DEADBEEF'' \<and>
   set (createCRCString crcValue False) \<subseteq> set ''0123456789abcdef'' \<and>
   set (createCRCString crcValue True) \<subseteq> set ''0123456789ABCDEF'' \<and>
   createCRCString crcValue False = hexRepr8 (unat crcValue) \<and>
   createCRCString crcValue True = map toupper (hexRepr8 (unat crcValue)) \<and>
   createCRCString 0xab False = ''000000ab'' \<and>
   createCRCString 0xab True = ''000000AB''"
proof -
  have len: "length (createCRCString crcValue upperCase) = 8"
    by (cases upperCase) (simp_all only: createCRCString_upper createCRCString_lower length_hexRepr8 length_map)
  have z: "createCRCString 0 False = ''00000000''"
    by (simp add: createCRCString_def setw_fill_def hexString.simps hexDigit_def eval_nat_numeral)
  have "createCRCString 0xDEADBEEF False = ''deadbeef''"
    by (simp add: createCRCString_def setw_fill_def hexString.simps hexDigit_def)
  moreover have "map toupper ''deadbeef'' = ''DEADBEEF''"
    by code_simp
  ultimately have d: "createCRCString 0xDEADBEEF True = ''DEADBEEF''"
    by (simp only: createCRCString_upper)
  have lo: "set (createCRCString crcValue False) \<subseteq> set ''0123456789abcdef''"
    by (simp only: createCRCString_lower hexRepr8_lower)
  have "set (createCRCString crcValue True) = toupper ` set (createCRCString crcValue False)"
    by (simp only: createCRCString_upper set_map)
  also have "\<dots> \<subseteq> toupper ` set ''0123456789abcdef''"
    using lo by (rule image_mono)
  also have "\<dots> = set (map toupper ''0123456789abcdef'')"
    by (simp only: set_map)
  also have "\<dots> = set ''0123456789ABCDEF''"
    by (simp only: toupper_hexDigits)
  finally have up: "set (createCRCString crcValue True) \<subseteq> set ''0123456789ABCDEF''" .
  have pl: "createCRCString crcValue False = hexRepr8 (unat crcValue)"
    by (rule createCRCString_lower)
  have pu: "createCRCString crcValue True = map toupper (hexRepr8 (unat crcValue))"
    by (simp only: createCRCString_upper createCRCString_lower)
  have "hexString (unat (0xab :: int32)) = ''ab''"
    by (simp add: hexString.simps hexDigit_def)
  moreover have "replicate (8 - length ''ab'') (CHR ''0'') = ''000000''"
    by code_simp
  ultimately have al: "createCRCString 0xab False = ''000000ab''"
    by (simp add: createCRCString_def setw_fill_def)
  have "map toupper ''000000ab'' = ''000000AB''"
    by code_simp
  with al have au: "createCRCString 0xab True = ''000000AB''"
    by (simp only: createCRCString_upper)
  show ?thesis
    by (intro conjI)
       (rule len, rule z, rule d, rule lo, rule up, rule pl, rule pu, rule al, rule au)
qed

lemma mod_shift_half:
  fixes u m :: int
  assumes "m \<le> u" "u < 2 * m"
  shows "(u + m) mod (2 * m) - m = u - 2 * m"
proof -
  have "(u + m) mod (2 * m) = (u + m - 2 * m) mod (2 * m)"
    by (rule minus_mod_self2 [symmetric])
  also have "\<dots> = (u - m) mod (2 * m)"
    by (simp add: algebra_simps)
  also have "\<dots> = u - m"
    using assms by (intro mod_pos_pos_trivial) simp_all
  finally show ?thesis by simp
qed

lemma sint_conv:
  "sint (w :: 32 word) = (if uint w < 2 ^ 31 then uint w else uint w - 2 ^ 32)"
proof -
  have b: "0 \<le> uint w" "uint w < 2 ^ 32"
    using uint_lt2p [of w] by simp_all
  have s: "sint w = (uint w + 2 ^ 31) mod 2 ^ 32 - 2 ^ 31"
    by (simp add: sint_uint signed_take_bit_eq_take_bit_shift take_bit_eq_mod)
  show ?thesis
  proof (cases "uint w < 2 ^ 31")
    case True
    with b s show ?thesis by simp
  next
    case False
    then have ge: "2 ^ 31 \<le> uint w" by simp
    from mod_shift_half [of "2 ^ 31" "uint w"] ge b s False show ?thesis by simp
  qed
qed

text \<open>
  C10. For every 32-bit unsigned candidate, also one at or above \<open>2 ^ 31\<close> that the
  conversion to \<open>int\<close> turns negative, the rendered string is the 8-digit zero-padded
  hexadecimal representation of the original unsigned value (in upper case when asked).
\<close>

theorem createCRCString_of_uint32:
  "createCRCString (int_of_uint32 i) False = hexRepr8 (unat i) \<and>
   createCRCString (int_of_uint32 i) True = map toupper (hexRepr8 (unat i)) \<and>
   sint (int_of_uint32 i) = (if uint i < 2 ^ 31 then uint i else uint i - 2 ^ 32)"
proof -
  have id: "int_of_uint32 i = i" by (simp add: int_of_uint32_def)
  show ?thesis
    unfolding id
    by (intro conjI) (simp_all only: createCRCString_upper createCRCString_lower sint_conv)
qed

lemma caseLoop_0:
  "caseLoop crc32 i 0 =
     operationLoop crc32 i False (createCRCString (int_of_uint32 i) False) @
     (if length (filter isalpha (createCRCString (int_of_uint32 i) False)) = 0 then []
      else operationLoop crc32 i True (createCRCString (int_of_uint32 i) True))"
proof -
  have two: "caseLoop crc32 i 2 = []"
    by (subst caseLoop.simps) (simp add: word_sless_alt)
  have one: "caseLoop crc32 i 1 = operationLoop crc32 i True (createCRCString (int_of_uint32 i) True)"
    by (subst caseLoop.simps) (simp add: word_sless_alt two Let_def)
  show ?thesis
    by (subst caseLoop.simps) (simp add: word_sless_alt one Let_def)
qed

lemma t_upperCase_operationLoop:
  "t \<in> set (operationLoop crc32 i u s) \<Longrightarrow> t_upperCase t = u"
  by (auto simp: operationLoop_def testOperation_def Let_def)

text \<open>
  C5. When the lower-case checksum string of a candidate has no letter, the case loop
  runs the lower-case pass only, and the upper-case rendering would have been the same
  string.
\<close>

theorem caseLoop_skips_upper_pass:
  assumes "length (filter isalpha (createCRCString (int_of_uint32 i) False)) = 0"
  shows "caseLoop crc32 i 0 = operationLoop crc32 i False (createCRCString (int_of_uint32 i) False) \<and>
         (\<forall>t \<in> set (caseLoop crc32 i 0). \<not> t_upperCase t) \<and>
         createCRCString (int_of_uint32 i) True = createCRCString (int_of_uint32 i) False"
proof -
  have a: "caseLoop crc32 i 0 = operationLoop crc32 i False (createCRCString (int_of_uint32 i) False)"
    using assms by (simp add: caseLoop_0)
  have b: "\<forall>t \<in> set (caseLoop crc32 i 0). \<not> t_upperCase t"
    unfolding a using t_upperCase_operationLoop by blast
  have c: "createCRCString (int_of_uint32 i) True = createCRCString (int_of_uint32 i) False"
    using assms by (simp only: createCRCString_upper map_toupper_no_letters)
  from a b c show ?thesis by (intro conjI)
qed

theorem caseLoop_skips_upper_pass_witness:
  "length (filter isalpha (createCRCString (int_of_uint32 0) False)) = 0 \<and>
   (\<forall>crc32. caseLoop crc32 0 0 = operationLoop crc32 0 False ''00000000'') \<and>
   createCRCString (int_of_uint32 0) True = ''00000000''"
proof -
  have s: "createCRCString (int_of_uint32 0) False = ''00000000''"
    by (simp add: int_of_uint32_def createCRCString_def setw_fill_def hexString.simps hexDigit_def
        eval_nat_numeral)
  have h: "length (filter isalpha (createCRCString (int_of_uint32 0) False)) = 0"
    unfolding s by code_simp
  from caseLoop_skips_upper_pass [OF h] h s show ?thesis by simp
qed

section \<open>The worker loops\<close>

lemma t_printed_testOperation:
  "t_printed (testOperation crc32 i u s operation) =
     checkSentence i operation (crc32 (generateSentence operation s)) (generateSentence operation s)"
  by (simp add: testOperation_def Let_def)

text \<open>
  C4. For every candidate \<open>i\<close> and every generated sentence, the loop body prints a
  hit exactly when the checksum of the sentence equals \<open>i\<close>, a near miss exactly when
  the absolute difference of checksum and \<open>i\<close> is nonzero and below 25, and never both.
\<close>

theorem testOperation_hit_near_miss:
  "(list_ex isHit (t_printed (testOperation crc32 i u s operation))
      \<longleftrightarrow> crc32 (generateSentence operation s) = i) \<and>
   (list_ex isNearMiss (t_printed (testOperation crc32 i u s operation))
      \<longleftrightarrow> \<bar>uint (crc32 (generateSentence operation s)) - uint i\<bar> \<noteq> 0 \<and>
          \<bar>uint (crc32 (generateSentence operation s)) - uint i\<bar> < 25) \<and>
   \<not> (list_ex isHit (t_printed (testOperation crc32 i u s operation)) \<and>
      list_ex isNearMiss (t_printed (testOperation crc32 i u s operation)))"
  unfolding t_printed_testOperation
  by (auto simp: checkSentence_def nearMissDistance_def word_uint_eq_iff)

lemma sint_of_nat_small:
  fixes k :: nat
  assumes "k < 2 ^ 31"
  shows "sint (of_nat k :: 32 word) = int k"
proof -
  from assms have "int k < 2 ^ 31" by simp
  moreover have "- (2 ^ 31) \<le> int k" by simp
  ultimately have "signed_take_bit 31 (int k) = int k"
    by (simp add: signed_take_bit_int_eq_self)
  then show ?thesis
    using signed_of_nat [where ?'b = 32 and ?'a = int, of k] by simp
qed

lemma operationCodesFrom_of_nat:
  "k \<le> 256 \<Longrightarrow> operationCodesFrom (of_nat k) = map of_nat [k..<256]"
proof (induction "256 - k" arbitrary: k)
  case 0
  then have "k = 256" by simp
  then show ?case
    by (subst operationCodesFrom.simps) (simp add: word_sless_alt maxSentenceOperations_def)
next
  case (Suc d)
  then have lt: "k < 256" by simp
  then have "sint (of_nat k :: 32 word) = int k" by (intro sint_of_nat_small) simp
  with lt have guard: "(of_nat k :: 32 word) <s maxSentenceOperations"
    by (simp add: word_sless_alt maxSentenceOperations_def)
  from Suc lt have "operationCodesFrom (of_nat (Suc k)) = map of_nat [Suc k..<256]"
    by (intro Suc.hyps) simp_all
  then have "operationCodesFrom (of_nat k + 1) = map of_nat [Suc k..<256]"
    by (simp add: add.commute)
  with guard lt show ?case
    by (subst operationCodesFrom.simps) (simp add: upt_conv_Cons)
qed

lemma operationCodesFrom_0: "operationCodesFrom 0 = map of_nat [0..<256]"
  using operationCodesFrom_of_nat [of 0] by simp

lemma unat_operationCodes: "map unat (operationCodesFrom 0) = [0..<256]"
proof -
  have "map unat (map (of_nat :: nat \<Rightarrow> 32 word) [0..<256]) = map (\<lambda>k. k) [0..<256]"
    unfolding map_map by (rule map_cong) (simp_all add: unat_of_nat)
  then show ?thesis by (simp add: operationCodesFrom_0)
qed

text \<open>
  C2 as stated fails: the code 256 lies in \<open>[0, 512)\<close> and the loop header never
  reaches it.
\<close>

theorem operationCodes_skip_256:
  "(256 :: int32) \<notin> set (operationCodesFrom 0) \<and> uint (256 :: int32) < 512"
proof -
  have "unat (256 :: int32) \<notin> set (map unat (operationCodesFrom 0))"
    unfolding unat_operationCodes by simp
  then have "(256 :: int32) \<notin> set (operationCodesFrom 0)"
    by (metis image_eqI set_map)
  then show ?thesis by simp
qed

lemma generateSentence_low_byte:
  "generateSentence (operation AND 255) crcString = generateSentence operation crcString"
proof -
  have "(operation AND 255) AND 3 = operation AND 3"
       "(operation AND 255) AND 4 = operation AND 4"
       "(operation AND 255) AND 8 = operation AND 8"
       "(operation AND 255) AND 16 = operation AND 16"
       "(operation AND 255) AND 96 = operation AND 96"
       "(operation AND 255) AND 128 = operation AND 128"
    by (simp_all add: and.assoc)
  then show ?thesis
    by (simp only: generateSentence_def)
qed

text \<open>
  C2, amended. The operation codes the worker runs through are exactly 0, 1, ..., 255
  in this order (8 bits), and the encoder reads no bit above bit 7. For a candidate the
  case loop is the lower-case pass followed, unless the checksum string has no letter,
  by the upper-case pass, and each pass generates and tests one sentence per code.
\<close>

theorem operationLoop_enumerates_256:
  "map t_operation (operationLoop crc32 i u s) = operationCodesFrom 0 \<and>
   map t_sentence (operationLoop crc32 i u s) =
     map (\<lambda>operation. generateSentence operation s) (operationCodesFrom 0) \<and>
   map t_crc (operationLoop crc32 i u s) =
     map (\<lambda>operation. crc32 (generateSentence operation s)) (operationCodesFrom 0) \<and>
   map unat (operationCodesFrom 0) = [0..<256] \<and>
   generateSentence (operation AND 255) crcString = generateSentence operation crcString \<and>
   caseLoop crc32 i 0 =
     operationLoop crc32 i False (createCRCString (int_of_uint32 i) False) @
     (if length (filter isalpha (createCRCString (int_of_uint32 i) False)) = 0 then []
      else operationLoop crc32 i True (createCRCString (int_of_uint32 i) True))"
  by (simp add: operationLoop_def testOperation_def Let_def comp_def unat_operationCodes caseLoop_0
      generateSentence_low_byte)

section \<open>Progress reports\<close>

lemma mod_255_unat: "(i mod 255 = 0) = (unat i mod 255 = 0)" for i :: uint32
proof -
  have "unat (i mod 255) = unat i mod 255"
    by (simp add: unat_mod)
  then show ?thesis
    by (metis unat_eq_zero)
qed

lemma roundEven_error: "\<bar>of_int (roundEven y) - y\<bar> \<le> 1 / 2"
proof -
  have "of_int \<lfloor>y\<rfloor> \<le> y" "y < of_int \<lfloor>y\<rfloor> + 1" by linarith+
  then show ?thesis
    by (auto simp: roundEven_def Let_def)
qed

lemma binary64_binade:
  assumes "2 powr of_int e \<le> x" and "x < 2 powr of_int (e + 1)"
  shows "binary64 x = of_int (roundEven (x / 2 powr of_int (e - 52))) * 2 powr of_int (e - 52)"
proof -
  have pos: "0 < x" using assms(1) powr_gt_zero [of 2 "of_int e"] by linarith
  then have "\<lfloor>log 2 x\<rfloor> = e"
    using assms by (simp add: floor_log_eq_powr_iff)
  with pos show ?thesis
    by (simp add: binary64_def Let_def)
qed

lemma binary64_error:
  assumes "0 < x"
  shows "\<bar>binary64 x - x\<bar> \<le> x / 2 ^ 53"
proof -
  define e where "e = \<lfloor>log 2 x\<rfloor>"
  define ulp :: real where "ulp = 2 powr of_int (e - 52)"
  have ulp_pos: "0 < ulp" by (simp add: ulp_def)
  have "2 powr of_int e \<le> x"
    using assms floor_log_eq_powr_iff [of x 2 e] by (simp add: e_def)
  moreover have "ulp = 2 powr of_int e / 2 ^ 52"
    by (simp add: ulp_def powr_diff powr_realpow [symmetric])
  ultimately have ulp_le: "ulp \<le> x / 2 ^ 52"
    by (simp add: divide_right_mono)
  have b: "binary64 x = of_int (roundEven (x / ulp)) * ulp"
    using assms by (simp add: binary64_def Let_def e_def ulp_def)
  have "binary64 x - x = (of_int (roundEven (x / ulp)) - x / ulp) * ulp"
    using ulp_pos by (simp add: b field_simps)
  then have "\<bar>binary64 x - x\<bar> = \<bar>of_int (roundEven (x / ulp)) - x / ulp\<bar> * ulp"
    using ulp_pos by (simp add: abs_mult)
  also have "\<dots> \<le> 1 / 2 * ulp"
    using roundEven_error [of "x / ulp"] ulp_pos by (intro mult_right_mono) simp_all
  also have "\<dots> \<le> 1 / 2 * (x / 2 ^ 52)"
    using ulp_le by simp
  also have "\<dots> = x / 2 ^ 53"
    by simp
  finally show ?thesis .
qed

lemma two_roundings:
  fixes x q p d :: real
  assumes x: "0 < x" "x < 1" and d: "0 < d" "d \<le> 1"
    and q: "\<bar>q - x\<bar> \<le> x * d" and p: "\<bar>p - q * 100\<bar> \<le> q * 100 * d"
  shows "\<bar>p - 100 * x\<bar> \<le> 300 * (x * d)"
proof -
  define u where "u = x * d"
  have u0: "0 \<le> u" using x d by (simp add: u_def)
  have ud: "u * d \<le> u" using u0 d by (simp add: mult_left_le)
  from q have q1: "q \<le> x + u" and q2: "x - u \<le> q" by (simp_all add: u_def abs_le_iff)
  from q1 d have "q * d \<le> (x + u) * d" by (intro mult_right_mono) simp_all
  also have "\<dots> = u + u * d" by (simp add: u_def algebra_simps)
  finally have qd: "q * d \<le> 2 * u" using ud by simp
  have "q * 100 * d = 100 * (q * d)" by simp
  with p qd have "\<bar>p - q * 100\<bar> \<le> 200 * u" by simp
  with q1 q2 show ?thesis
    unfolding u_def [symmetric] by (simp add: abs_le_iff)
qed

lemma percent_binary64:
  fixes a b :: nat
  assumes "a < b" and "b < 2 ^ 32"
  defines "p \<equiv> binary64 (binary64 (real a / real b) * 100)"
  shows "int ((100 * a) div b) - 1 \<le> truncToInt p"
    and "truncToInt p \<le> int ((100 * a) div b)"
    and "(100 * a) mod b \<noteq> 0 \<Longrightarrow> truncToInt p = int ((100 * a) div b)"
proof -
  define P where "P = (100 * a) div b"
  define r where "r = (100 * a) mod b"
  have bpos: "0 < b" using assms(1) by simp
  have all: "int P - 1 \<le> truncToInt p \<and> truncToInt p \<le> int P \<and>
             (r \<noteq> 0 \<longrightarrow> truncToInt p = int P)"
  proof (cases "a = 0")
    case True
    then show ?thesis
      by (simp add: p_def P_def r_def binary64_def truncToInt_def)
  next
    case False
    define x where "x = real a / real b"
    define d :: real where "d = 1 / 2 ^ 53"
    define q where "q = binary64 x"
    have x: "0 < x" "x < 1" using False assms(1) bpos by (simp_all add: x_def)
    have d: "0 < d" "d \<le> 1" by (simp_all add: d_def)
    have qe: "\<bar>q - x\<bar> \<le> x * d"
      using binary64_error [OF x(1)] by (simp add: q_def d_def)
    have d4: "d \<le> 1 / 4" by (simp add: d_def)
    have "x * d \<le> x * (1 / 4)" using x d4 by (intro mult_left_mono) simp_all
    then have xd4: "x * d \<le> x / 4" by simp
    from qe have "x - q \<le> x * d" by (simp add: abs_le_iff)
    with xd4 x have qpos: "0 < q" by linarith
    then have y: "0 < q * 100" by simp
    have pe: "\<bar>p - q * 100\<bar> \<le> q * 100 * d"
      using binary64_error [OF y] by (simp add: p_def q_def x_def d_def)
    from two_roundings [OF x d qe pe] have near: "\<bar>p - 100 * x\<bar> \<le> 300 * (x * d)" .
    have xd: "x * d \<le> d" using x d by (simp add: mult_left_le_one_le)
    have xd2: "300 * (x * d) \<le> x"
    proof -
      have "d \<le> 1 / 300" by (simp add: d_def)
      then have "x * d \<le> x * (1 / 300)" using x by (intro mult_left_mono) simp_all
      then show ?thesis by simp
    qed
    from near have n1: "p - 100 * x \<le> 300 * (x * d)" and n2: "100 * x - p \<le> 300 * (x * d)"
      by (simp_all add: abs_le_iff)
    have p0: "0 \<le> p" using n2 xd2 x by linarith
    then have tr: "truncToInt p = \<lfloor>p\<rfloor>" by (simp add: truncToInt_def)
    have "real (100 * a) = real (P * b + r)"
      by (simp add: P_def r_def)
    then have hx: "100 * x = real P + real r / real b"
      using bpos by (simp add: x_def field_simps)
    have small: "300 * d < 1 / real b"
    proof -
      have "real b < 2 ^ 32" using assms(2) by (simp flip: of_nat_less_iff)
      then have "1 / (2 ^ 32 :: real) < 1 / real b"
        using bpos by (simp add: field_simps)
      moreover have "300 * d < 1 / (2 ^ 32 :: real)" by (simp add: d_def)
      ultimately show ?thesis by linarith
    qed
    have one: "1 / real b \<le> 1" using bpos by simp
    have rlt: "real r / real b \<le> 1 - 1 / real b"
    proof -
      have "r < b" using bpos by (simp add: r_def)
      then have "real r \<le> real b - 1" by linarith
      then have "real r / real b \<le> (real b - 1) / real b"
        using bpos by (intro divide_right_mono) simp_all
      also have "\<dots> = 1 - 1 / real b" using bpos by (simp add: field_simps)
      finally show ?thesis .
    qed
    have r0: "0 \<le> real r / real b" by simp
    have up: "p < real P + 1"
      using n1 xd small rlt hx by linarith
    have lo: "real P - 1 \<le> p"
      using n2 xd small one r0 hx by linarith
    have exact: "real P \<le> p" if "r \<noteq> 0"
    proof -
      from that have "1 \<le> real r" by simp
      then have "1 / real b \<le> real r / real b"
        using bpos by (intro divide_right_mono) simp_all
      with n2 xd small hx show ?thesis by linarith
    qed
    have f1: "\<lfloor>p\<rfloor> \<le> int P"
      using up by (simp add: floor_le_iff)
    have f2: "int P - 1 \<le> \<lfloor>p\<rfloor>"
      using lo by (simp add: le_floor_iff)
    have f3: "\<lfloor>p\<rfloor> = int P" if "r \<noteq> 0"
      using exact [OF that] f1 by (simp add: le_floor_iff order_antisym)
    from f1 f2 f3 show ?thesis by (simp add: tr)
  qed
  from all show "int ((100 * a) div b) - 1 \<le> truncToInt p"
    and "truncToInt p \<le> int ((100 * a) div b)"
    and "(100 * a) mod b \<noteq> 0 \<Longrightarrow> truncToInt p = int ((100 * a) div b)"
    by (simp_all add: P_def r_def)
qed

lemma powr_m2: "(2::real) powr of_int (- 2) = 1 / 2 ^ 2" "(2::real) powr of_int (- 2 + 1) = 1 / 2"
  "(2::real) powr of_int (- 2 - 52) = 1 / 2 ^ 54"
  by (simp_all add: powr_minus)

lemma powr_4: "(2::real) powr of_int 4 = 2 ^ 4" "(2::real) powr of_int (4 + 1) = 2 ^ 5"
  "(2::real) powr of_int (4 - 52) = 1 / 2 ^ 48"
  by (simp_all add: powr_minus)

lemma binary64_29_100: "binary64 (29 / 100) = 5224175567749775 / 2 ^ 54"
proof -
  have "binary64 (29 / 100) =
      of_int (roundEven (29 / 100 / 2 powr of_int (- 2 - 52))) * 2 powr of_int (- 2 - 52)"
    by (rule binary64_binade) (simp_all only: powr_m2, simp_all)
  also have "29 / 100 / 2 powr of_int (- 2 - 52) = (130604389193744384 / 25 :: real)"
    by (simp add: powr_minus)
  also have "roundEven (130604389193744384 / 25) = 5224175567749775"
    by (simp add: roundEven_def Let_def)
  finally show ?thesis by (simp add: powr_minus)
qed

lemma binary64_29: "binary64 (5224175567749775 / 2 ^ 54 * 100) = 8162774324609023 / 2 ^ 48"
proof -
  let ?y = "5224175567749775 / 2 ^ 54 * 100 :: real"
  have "binary64 ?y = of_int (roundEven (?y / 2 powr of_int (4 - 52))) * 2 powr of_int (4 - 52)"
    by (rule binary64_binade) (simp_all only: powr_4, simp_all)
  also have "?y / 2 powr of_int (4 - 52) = (130604389193744375 / 16 :: real)"
    by (simp add: powr_minus)
  also have "roundEven (130604389193744375 / 16) = 8162774324609023"
    by (simp add: roundEven_def Let_def)
  finally show ?thesis by (simp add: powr_minus)
qed

lemma percentOf_at_255: "percentOf 255 226 326 = 28"
proof -
  have "(real (unat (255 :: uint32)) - real (unat (226 :: uint32)))
          / real (unat (326 - 226 :: uint32)) = 29 / 100"
    by simp
  then have "percentOf 255 226 326 = truncToInt (8162774324609023 / 2 ^ 48)"
    by (simp only: percentOf_def binary64_29_100 binary64_29)
  also have "\<dots> = 28"
    by (simp add: truncToInt_def)
  finally show ?thesis .
qed

lemma percentOf_bounds:
  assumes "start_inc \<le> i" and "i < end_ex"
  shows "int ((100 * (unat i - unat start_inc)) div (unat end_ex - unat start_inc)) - 1
           \<le> percentOf i start_inc end_ex"
    and "percentOf i start_inc end_ex
           \<le> int ((100 * (unat i - unat start_inc)) div (unat end_ex - unat start_inc))"
    and "(100 * (unat i - unat start_inc)) mod (unat end_ex - unat start_inc) \<noteq> 0 \<Longrightarrow>
         percentOf i start_inc end_ex
           = int ((100 * (unat i - unat start_inc)) div (unat end_ex - unat start_inc))"
proof -
  from assms have le: "unat start_inc \<le> unat i" and lt: "unat i < unat end_ex"
    by (simp_all add: word_le_nat_alt word_less_nat_alt)
  then have "start_inc \<le> end_ex" by (simp add: word_le_nat_alt)
  then have len: "unat (end_ex - start_inc) = unat end_ex - unat start_inc"
    by (rule unat_sub)
  from le have num: "real (unat i) - real (unat start_inc) = real (unat i - unat start_inc)"
    by simp
  have p: "percentOf i start_inc end_ex =
      truncToInt (binary64 (binary64 (real (unat i - unat start_inc)
                                        / real (unat end_ex - unat start_inc)) * 100))"
    by (simp only: percentOf_def len num)
  have a: "unat i - unat start_inc < unat end_ex - unat start_inc"
    using le lt by simp
  have "unat end_ex < 2 ^ 32"
    using unsigned_less [of end_ex, where ?'a = nat] by simp
  then have b: "unat end_ex - unat start_inc < 2 ^ 32" by simp
  from percent_binary64 [OF a b]
  show "int ((100 * (unat i - unat start_inc)) div (unat end_ex - unat start_inc)) - 1
           \<le> percentOf i start_inc end_ex"
    and "percentOf i start_inc end_ex
           \<le> int ((100 * (unat i - unat start_inc)) div (unat end_ex - unat start_inc))"
    and "(100 * (unat i - unat start_inc)) mod (unat end_ex - unat start_inc) \<noteq> 0 \<Longrightarrow>
         percentOf i start_inc end_ex
           = int ((100 * (unat i - unat start_inc)) div (unat end_ex - unat start_inc))"
    unfolding p by simp_all
qed

lemma percentOf_at_256: "percentOf 256 0 1000 = 25"
  using percentOf_bounds(3) [of 0 256 1000] by simp

lemma candidateLoop_progress:
  "run \<in> set (fst (candidateLoop crc32 r s e i pc)) \<Longrightarrow> r_progress run \<noteq> [] \<Longrightarrow>
     r \<and> unat (r_candidate run) mod 255 = 0 \<and>
     r_progress run = [ProgressLine (percentOf (r_candidate run) s e)]"
proof (induction crc32 r s e i pc rule: candidateLoop.induct)
  case (1 crc32 r s e i pc)
  show ?case
  proof (cases "i < e")
    case True
    obtain progress pc2 where rp: "reportProgress r s e i pc = (progress, pc2)"
      by (cases "reportProgress r s e i pc")
    obtain runs pc3 where cl: "candidateLoop crc32 r s e (i + 1) pc2 = (runs, pc3)"
      by (cases "candidateLoop crc32 r s e (i + 1) pc2")
    have unf: "fst (candidateLoop crc32 r s e i pc) =
        \<lparr> r_candidate = i, r_progress = progress, r_tests = caseLoop crc32 i 0 \<rparr> # runs"
      using True by (subst candidateLoop.simps) (simp add: rp cl)
    from "1.prems"(1) consider
        "run = \<lparr> r_candidate = i, r_progress = progress, r_tests = caseLoop crc32 i 0 \<rparr>"
      | "run \<in> set runs"
      unfolding unf by auto
    then show ?thesis
    proof cases
      case 1
      with rp "1.prems"(2) show ?thesis
        by (auto simp: reportProgress_def Let_def mod_255_unat split: if_splits)
    next
      case 2
      then have "run \<in> set (fst (candidateLoop crc32 r s e (i + 1) pc2))"
        by (simp add: cl)
      from "1.IH" [OF True rp [symmetric] refl refl this "1.prems"(2)] show ?thesis .
    qed
  next
    case False
    with "1.prems"(1) show ?thesis
      by (subst (asm) candidateLoop.simps) simp
  qed
qed

text \<open>
  C7, amended. For a candidate of the worker's range: the percentage is computed exactly
  when the worker is the reporter and the candidate is a multiple of 255, and it is
  printed and stored only when it differs from the stored one. It is computed from the
  candidate and the worker's own range bounds in \<open>double\<close> arithmetic: it is the integer
  percentage \<open>100 * (i - start_inc) div (end_ex - start_inc)\<close> of the worker's own range
  or one less, and it is that integer percentage whenever \<open>end_ex - start_inc\<close> does not
  divide \<open>100 * (i - start_inc)\<close>. In a whole run of the worker a progress line is
  printed only by the reporter, only at a multiple of 255, and shows the percentage of
  that candidate.
\<close>

theorem reportProgress_every_255:
  assumes "start_inc \<le> i" and "i < end_ex"
  shows
    "reportProgress reportPercentComplete start_inc end_ex i percentComplete =
       (if reportPercentComplete \<and> unat i mod 255 = 0 \<and>
           percentOf i start_inc end_ex \<noteq> percentComplete
        then ([ProgressLine (percentOf i start_inc end_ex)],
              percentOf i start_inc end_ex)
        else ([], percentComplete)) \<and>
     int ((100 * (unat i - unat start_inc)) div (unat end_ex - unat start_inc)) - 1
       \<le> percentOf i start_inc end_ex \<and>
     percentOf i start_inc end_ex
       \<le> int ((100 * (unat i - unat start_inc)) div (unat end_ex - unat start_inc)) \<and>
     ((100 * (unat i - unat start_inc)) mod (unat end_ex - unat start_inc) \<noteq> 0 \<longrightarrow>
       percentOf i start_inc end_ex
         = int ((100 * (unat i - unat start_inc)) div (unat end_ex - unat start_inc))) \<and>
     (\<forall>run \<in> set (fst (candidateLoop crc32 reportPercentComplete start_inc end_ex
                          start_inc percentComplete)).
        r_progress run \<noteq> [] \<longrightarrow>
          reportPercentComplete \<and> unat (r_candidate run) mod 255 = 0 \<and>
          r_progress run = [ProgressLine (percentOf (r_candidate run) start_inc end_ex)])"
proof -
  have step: "reportProgress reportPercentComplete start_inc end_ex i percentComplete =
       (if reportPercentComplete \<and> unat i mod 255 = 0 \<and>
           percentOf i start_inc end_ex \<noteq> percentComplete
        then ([ProgressLine (percentOf i start_inc end_ex)],
              percentOf i start_inc end_ex)
        else ([], percentComplete))"
    by (simp add: reportProgress_def Let_def mod_255_unat)
  note pb = percentOf_bounds [OF assms]
  show ?thesis
    using step pb(1) pb(2) pb(3) candidateLoop_progress by blast
qed

theorem reportProgress_every_255_witness:
  "(0 :: uint32) \<le> 255 \<and> (255 :: uint32) < 1000 \<and>
   reportProgress True 0 1000 255 (- 1) = ([ProgressLine 25], 25) \<and>
   percentOf 255 0 1000 = 25"
proof -
  have h1: "(0 :: uint32) \<le> 255" and h2: "(255 :: uint32) < 1000" by simp_all
  from reportProgress_every_255 [OF h1 h2, of True "- 1"] show ?thesis by simp
qed

text \<open>
  C7 as stated fails twice. A reporter started with the range \<open>[226, 326)\<close> prints a
  percentage at the candidate 255, which is not a multiple of 256, and the percentage it
  prints is 28 although the integer percentage of its range is
  \<open>100 * (255 - 226) div (326 - 226) = 29\<close>: the quotient \<open>29 / 100\<close> is rounded down to a
  \<open>double\<close>, the product with 100 stays below 29 and the cast truncates. At the candidate
  256, a multiple of 256, the reporter of the range \<open>[0, 1000)\<close> prints nothing although
  the percentage (25) differs from the last one reported (-1).
\<close>

theorem reportProgress_not_every_256:
  "reportProgress True 226 326 255 (- 1) = ([ProgressLine 28], 28) \<and>
   unat (255 :: uint32) mod 256 = 255 \<and>
   (100 * (unat (255 :: uint32) - unat (226 :: uint32)))
      div (unat (326 :: uint32) - unat (226 :: uint32)) = 29 \<and>
   reportProgress True 0 1000 256 (- 1) = ([], - 1) \<and>
   unat (256 :: uint32) mod 256 = 0 \<and>
   percentOf 256 0 1000 = 25"
  by (simp add: reportProgress_def percentOf_at_255 percentOf_at_256)

section \<open>The ranges given to the workers\<close>

text \<open>
  The candidates a worker tests are those of its half-open range, so \<open>assigned\<close> holds
  of the candidates that some worker's loop reaches.
\<close>

lemma word_succ_le_iff:
  fixes i e v :: uint32
  assumes "i < e"
  shows "i \<le> v \<longleftrightarrow> v = i \<or> i + 1 \<le> v"
proof -
  from assms have "unat i < unat e" by (simp add: word_less_nat_alt)
  moreover have "unat e < 2 ^ 32" using unsigned_less [of e, where ?'a = nat] by simp
  ultimately have "unat (i + 1) = unat i + 1" by (simp add: unat_word_ariths)
  then show ?thesis
    by (auto simp: word_le_nat_alt word_unat_eq_iff)
qed

lemma candidateLoop_candidates:
  "set (map r_candidate (fst (candidateLoop crc32 r s e i pc))) = {v. i \<le> v \<and> v < e}"
proof (induction crc32 r s e i pc rule: candidateLoop.induct)
  case (1 crc32 r s e i pc)
  show ?case
  proof (cases "i < e")
    case True
    obtain progress pc2 where rp: "reportProgress r s e i pc = (progress, pc2)"
      by (cases "reportProgress r s e i pc")
    obtain runs pc3 where cl: "candidateLoop crc32 r s e (i + 1) pc2 = (runs, pc3)"
      by (cases "candidateLoop crc32 r s e (i + 1) pc2")
    from 1 [OF True rp [symmetric] refl refl] cl
    have IH: "set (map r_candidate runs) = {v. i + 1 \<le> v \<and> v < e}"
      by simp
    have "fst (candidateLoop crc32 r s e i pc) =
        \<lparr> r_candidate = i, r_progress = progress, r_tests = caseLoop crc32 i 0 \<rparr> # runs"
      using True by (subst candidateLoop.simps) (simp add: rp cl)
    with IH True show ?thesis
      using word_succ_le_iff [OF True] by auto
  next
    case False
    then show ?thesis
      by (subst candidateLoop.simps) auto
  qed
qed

lemma testSentences_candidates:
  "set (map r_candidate (fst (fst (testSentences crc32 start_inc end_ex r pc)))) =
     {v. start_inc \<le> v \<and> v < end_ex}"
proof -
  obtain runs pc2 where cl: "candidateLoop crc32 r start_inc end_ex start_inc pc = (runs, pc2)"
    by (cases "candidateLoop crc32 r start_inc end_ex start_inc pc")
  from candidateLoop_candidates [of crc32 r start_inc end_ex start_inc pc] cl
  show ?thesis
    by (simp add: testSentences_def)
qed

lemma assigned_iff_tested:
  "assigned ranges v \<longleftrightarrow>
     (\<exists>(tStart, tEnd, isReporterThread) \<in> set ranges.
        v \<in> set (map r_candidate
                   (fst (fst (testSentences crc32 tStart tEnd isReporterThread pc)))))"
proof (induction ranges)
  case Nil
  show ?case by simp
next
  case (Cons range ranges)
  obtain tStart tEnd isReporterThread where r: "range = (tStart, tEnd, isReporterThread)"
    by (cases range)
  from Cons show ?case
    unfolding r by (simp only: assigned.simps testSentences_candidates) auto
qed

lemma not_assigned_max: "\<not> assigned (launchLoop numThreads bucketSize i) 0xFFFFFFFF"
proof (induction numThreads bucketSize i rule: launchLoop.induct)
  case (1 numThreads bucketSize i)
  have top: "\<not> (0xFFFFFFFF :: uint32) < min x (searchStart + searchLength)" for x
    by (simp add: searchStart_def searchLength_def word_less_nat_alt min_def word_le_nat_alt)
  show ?case
  proof (cases "i <s numThreads")
    case True
    with 1 top show ?thesis
      by (subst launchLoop.simps) (simp add: Let_def)
  next
    case False
    then show ?thesis
      by (subst launchLoop.simps) simp
  qed
qed

lemma min_search_end: "min x searchLength = x"
proof -
  have "unat x < 2 ^ 32"
    using unsigned_less [of x, where ?'a = nat] by simp
  then have "x \<le> 0xFFFFFFFF"
    by (simp add: word_le_nat_alt)
  then show ?thesis
    by (simp add: searchLength_def min_def)
qed

lemma word_of_nat_eq_0_small:
  fixes k :: nat
  assumes "k < 2 ^ 31"
  shows "(of_nat k :: 32 word) = 0 \<longleftrightarrow> k = 0"
proof
  assume "(of_nat k :: 32 word) = 0"
  then have "sint (of_nat k :: 32 word) = 0" by simp
  with sint_of_nat_small [OF assms] show "k = 0" by simp
qed simp

lemma launchLoop_of_nat:
  fixes N k :: nat
  assumes "sint numThreads = int N" and "k \<le> N"
  shows "launchLoop numThreads bucketSize (of_nat k) =
         map (\<lambda>j. (of_nat j * bucketSize, of_nat j * bucketSize + bucketSize, j = 0)) [k..<N]"
  using assms(2)
proof (induction "N - k" arbitrary: k)
  case 0
  then have "k = N" by simp
  have "N < 2 ^ 31" using sint_lt [of numThreads] assms(1) by simp
  then have "sint (of_nat N :: 32 word) = int N" by (rule sint_of_nat_small)
  with \<open>k = N\<close> assms(1) show ?case
    by (subst launchLoop.simps) (simp add: word_sless_alt)
next
  case (Suc d)
  then have lt: "k < N" by simp
  have "N < 2 ^ 31" using sint_lt [of numThreads] assms(1) by simp
  with lt have k31: "k < 2 ^ 31" by simp
  then have sk: "sint (of_nat k :: 32 word) = int k" by (rule sint_of_nat_small)
  with lt assms(1) have guard: "(of_nat k :: 32 word) <s numThreads"
    by (simp add: word_sless_alt)
  from Suc lt have "launchLoop numThreads bucketSize (of_nat (Suc k)) =
      map (\<lambda>j. (of_nat j * bucketSize, of_nat j * bucketSize + bucketSize, j = 0)) [Suc k..<N]"
    by (intro Suc.hyps) simp_all
  then have "launchLoop numThreads bucketSize (of_nat k + 1) =
      map (\<lambda>j. (of_nat j * bucketSize, of_nat j * bucketSize + bucketSize, j = 0)) [Suc k..<N]"
    by (simp add: add.commute)
  with guard lt show ?case
    by (subst launchLoop.simps)
       (simp add: upt_conv_Cons Let_def min_search_end searchStart_def word_of_nat_eq_0_small [OF k31])
qed

lemma assigned_map:
  "assigned (map (\<lambda>j. (f j, g j, h j)) js) v \<longleftrightarrow> (\<exists>j \<in> set js. f j \<le> v \<and> v < g j)"
  by (induction js) auto

lemma bucket_cover:
  fixes N b x :: nat
  assumes "0 < b"
  shows "(\<exists>j \<in> {0..<N}. j * b \<le> x \<and> x < j * b + b) \<longleftrightarrow> x < N * b"
proof
  assume "\<exists>j \<in> {0..<N}. j * b \<le> x \<and> x < j * b + b"
  then obtain j where j: "j < N" "x < j * b + b" by auto
  from j(1) have "Suc j * b \<le> N * b" by (intro mult_le_mono1) simp
  with j(2) show "x < N * b" by simp
next
  assume x: "x < N * b"
  with assms have "x div b < N" by (simp add: less_mult_imp_div_less)
  moreover have "x div b * b \<le> x" by simp
  moreover from assms have "x < x div b * b + b"
    using dividend_less_div_times by (simp add: add.commute)
  ultimately show "\<exists>j \<in> {0..<N}. j * b \<le> x \<and> x < j * b + b"
    by (intro bexI [where x = "x div b"]) simp_all
qed

lemma unat_bucket_bounds:
  fixes N j :: nat
  assumes "sint numThreads = int N" and "0 < N" and "j < N"
  shows "unat (of_nat j * bucketSizeOf numThreads) = j * (4294967295 div N)"
    and "unat (of_nat j * bucketSizeOf numThreads + bucketSizeOf numThreads)
           = j * (4294967295 div N) + 4294967295 div N"
proof -
  have N31: "N < 2 ^ 31" using sint_lt [of numThreads] assms(1) by simp
  have "uint numThreads = int N"
    using assms(1) N31 sint_conv [of numThreads] uint_lt2p [of numThreads]
    by (simp split: if_splits)
  then have un: "unat numThreads = N" by (simp add: unat_eq_nat_uint)
  have ub: "unat (bucketSizeOf numThreads) = 4294967295 div N"
    by (simp add: bucketSizeOf_def searchLength_def unat_div un)
  from assms(3) have "Suc j * (4294967295 div N) \<le> N * (4294967295 div N)"
    by (intro mult_le_mono1) simp
  also have "\<dots> \<le> 4294967295" by simp
  finally have le: "j * (4294967295 div N) + 4294967295 div N \<le> 4294967295" by simp
  from assms(3) N31 have uj: "unat (of_nat j :: 32 word) = j"
    by (simp add: unat_of_nat)
  from le have "j * (4294967295 div N) < 2 ^ 32" by simp
  then show m: "unat (of_nat j * bucketSizeOf numThreads) = j * (4294967295 div N)"
    by (simp add: unat_word_ariths uj ub)
  from le have "j * (4294967295 div N) + 4294967295 div N < 2 ^ 32" by simp
  then show "unat (of_nat j * bucketSizeOf numThreads + bucketSizeOf numThreads)
           = j * (4294967295 div N) + 4294967295 div N"
    by (simp add: unat_add_lem [THEN iffD1] m ub)
qed

lemma assigned_launchLoop:
  fixes N :: nat
  assumes "sint numThreads = int N" and "0 < N"
  shows "assigned (launchLoop numThreads (bucketSizeOf numThreads) 0) v
           \<longleftrightarrow> unat v < N * (4294967295 div N)"
proof -
  have N31: "N < 2 ^ 31" using sint_lt [of numThreads] assms(1) by simp
  then have bpos: "0 < (4294967295 :: nat) div N"
    using assms(2) by (simp add: div_greater_zero_iff)
  have "launchLoop numThreads (bucketSizeOf numThreads) (of_nat 0) =
      map (\<lambda>j. (of_nat j * bucketSizeOf numThreads,
                 of_nat j * bucketSizeOf numThreads + bucketSizeOf numThreads, j = 0)) [0..<N]"
    using assms(1) by (rule launchLoop_of_nat) simp
  then have "assigned (launchLoop numThreads (bucketSizeOf numThreads) 0) v \<longleftrightarrow>
      (\<exists>j \<in> {0..<N}. of_nat j * bucketSizeOf numThreads \<le> v \<and>
                       v < of_nat j * bucketSizeOf numThreads + bucketSizeOf numThreads)"
    by (simp add: assigned_map)
  also have "\<dots> \<longleftrightarrow>
      (\<exists>j \<in> {0..<N}. j * (4294967295 div N) \<le> unat v \<and>
                       unat v < j * (4294967295 div N) + 4294967295 div N)"
    using unat_bucket_bounds [OF assms]
    by (simp add: word_le_nat_alt word_less_nat_alt)
  also have "\<dots> \<longleftrightarrow> unat v < N * (4294967295 div N)"
    using bpos by (rule bucket_cover)
  finally show ?thesis .
qed

lemma numThreadsOf_pos: "1 \<le> sint (numThreadsOf hardware_concurrency)"
  by (simp add: numThreadsOf_def Let_def word_sless_alt)

lemma assigned_workRanges:
  "assigned (workRanges hardware_concurrency) v \<longleftrightarrow>
     unat v < nat (sint (numThreadsOf hardware_concurrency))
                * (4294967295 div nat (sint (numThreadsOf hardware_concurrency)))"
  unfolding workRanges_def Let_def
  using numThreadsOf_pos [of hardware_concurrency]
  by (intro assigned_launchLoop) simp_all

text \<open>
  C1 at its failing inputs. With \<open>N\<close> workers the candidates given to some worker are
  exactly those below \<open>N * ((2 ^ 32 - 1) div N)\<close>. Whatever the number of hardware threads,
  no worker is given the candidate \<open>0xFFFFFFFF\<close>; with 3 hardware threads (2 workers) the two ranges end at
  \<open>0xFFFFFFFE\<close>, so that candidate is not tested either.
\<close>

theorem workRanges_miss_candidates:
  "(assigned (workRanges hardware_concurrency) v \<longleftrightarrow>
      unat v < nat (sint (numThreadsOf hardware_concurrency))
                 * (4294967295 div nat (sint (numThreadsOf hardware_concurrency)))) \<and>
   \<not> assigned (workRanges hardware_concurrency) 0xFFFFFFFF \<and>
   workRanges 3 = [(0, 0x7FFFFFFF, True), (0x7FFFFFFF, 0xFFFFFFFE, False)] \<and>
   \<not> assigned (workRanges 3) 0xFFFFFFFE"
proof -
  have a: "\<not> assigned (workRanges hardware_concurrency) 0xFFFFFFFF"
    by (simp add: workRanges_def Let_def not_assigned_max)
  have n: "numThreadsOf 3 = 2"
    by (simp add: numThreadsOf_def int_of_uint32_def word_sless_alt)
  have b: "bucketSizeOf 2 = 0x7FFFFFFF"
    by (simp add: bucketSizeOf_def searchLength_def)
  have l2: "launchLoop 2 0x7FFFFFFF 2 = []"
    by (subst launchLoop.simps) (simp add: word_sless_alt)
  have l1: "launchLoop 2 0x7FFFFFFF 1 = [(0x7FFFFFFF, 0xFFFFFFFE, False)]"
    by (subst launchLoop.simps) (simp add: word_sless_alt l2 searchStart_def searchLength_def)
  have l0: "launchLoop 2 0x7FFFFFFF 0 = [(0, 0x7FFFFFFF, True), (0x7FFFFFFF, 0xFFFFFFFE, False)]"
    by (subst launchLoop.simps) (simp add: word_sless_alt l1 searchStart_def searchLength_def)
  have w: "workRanges 3 = [(0, 0x7FFFFFFF, True), (0x7FFFFFFF, 0xFFFFFFFE, False)]"
    by (simp add: workRanges_def n b l0)
  have c: "\<not> assigned (workRanges 3) 0xFFFFFFFE"
    unfolding w by simp
  from assigned_workRanges a w c show ?thesis by (intro conjI)
qed

section \<open>The self-referential length\<close>

lemma length_openingText: "length (openingText openingPhrase capitalFirstLetter) \<le> 20"
  by (simp add: openingText_def)

lemma length_bodyText:
  "length (bodyText basicText capitalFirstLetter col crcString) \<le> 33 + length crcString"
  by (simp add: bodyText_def)

lemma floorlog_two_digits:
  assumes "10 \<le> m" "m < 100"
  shows "floorlog 10 m = 2"
proof -
  from assms have "floorlog 10 m \<le> 2"
    by (simp add: floorlog_le_iff)
  moreover from assms have "2 \<le> floorlog 10 m"
    by (intro floorlog_geI) simp_all
  ultimately show ?thesis by simp
qed

lemma length_decString_two_digits:
  assumes "10 \<le> m" "m < 100"
  shows "length (decString m) = 2"
proof -
  from assms have "m div 10 < 10" by simp
  then have "decString (m div 10) = [decDigit (m div 10)]"
    by (subst decString.simps) simp
  with assms show ?thesis
    by (subst decString.simps) simp
qed

lemma selfLength_two_digits:
  assumes "10 \<le> n" "n \<le> 96"
  shows "selfLength n fullStop = n + (if fullStop then 1 else 0) + 2"
proof -
  let ?base = "n + (if fullStop then 1 else 0)"
  from assms have "floorlog 10 ?base = 2" "floorlog 10 (?base + 2) = 2"
    by (simp_all add: floorlog_two_digits)
  then show ?thesis
    by (simp add: selfLength_def Let_def)
qed

text \<open>
  C3. For every operation code with the append-length flag (bit 7) set and every
  8-character checksum string, the sentence is the opening and body text, then
  " and a length of ", then the decimal rendering of the length of the whole sentence,
  then the full stop when its flag is set: the number written is the sentence's own
  character count, full stop included.
\<close>

theorem generateSentence_states_own_length:
  assumes "operation AND 128 \<noteq> 0" and "length crcString = 8"
  shows "generateSentence operation crcString =
           openingText (signed_drop_bit 5 (operation AND 96)) (operation AND 4 \<noteq> 0)
           @ bodyText (operation AND 3)
               (capitalAfterOpening (signed_drop_bit 5 (operation AND 96)) (operation AND 4 \<noteq> 0))
               (operation AND 16 \<noteq> 0) crcString
           @ '' and a length of ''
           @ decString (length (generateSentence operation crcString))
           @ (if operation AND 8 \<noteq> 0 then ''.'' else '''')"
proof -
  define stem where "stem =
    openingText (signed_drop_bit 5 (operation AND 96)) (operation AND 4 \<noteq> 0)
    @ bodyText (operation AND 3)
        (capitalAfterOpening (signed_drop_bit 5 (operation AND 96)) (operation AND 4 \<noteq> 0))
        (operation AND 16 \<noteq> 0) crcString"
  define fullStop where "fullStop = (operation AND 8 \<noteq> 0)"
  define pre where "pre = stem @ '' and a length of ''"
  define n where "n = length pre"
  have "length stem \<le> 20 + (33 + length crcString)"
    unfolding stem_def length_append
    by (intro add_mono length_openingText length_bodyText)
  with assms(2) have bounds: "10 \<le> n" "n \<le> 96"
    by (simp_all add: n_def pre_def)
  then have sl: "selfLength n fullStop = n + (if fullStop then 1 else 0) + 2"
    by (rule selfLength_two_digits)
  from bounds have digits: "length (decString (n + (if fullStop then 1 else 0) + 2)) = 2"
    by (intro length_decString_two_digits) simp_all
  have gen: "generateSentence operation crcString =
      pre @ decString (selfLength n fullStop) @ (if fullStop then ''.'' else '''')"
    using assms(1)
    by (simp add: generateSentence_def Let_def lengthText_def stem_def fullStop_def n_def pre_def)
  have "length (generateSentence operation crcString) = n + (if fullStop then 1 else 0) + 2"
    unfolding gen sl length_append digits by (simp add: n_def)
  then have "length (generateSentence operation crcString) = selfLength n fullStop"
    by (simp only: sl)
  with gen have "generateSentence operation crcString =
      pre @ decString (length (generateSentence operation crcString))
      @ (if fullStop then ''.'' else '''')"
    by simp
  then show ?thesis
    by (simp add: pre_def stem_def fullStop_def)
qed

theorem generateSentence_states_own_length_witness:
  "(136 :: int32) AND 128 \<noteq> 0 \<and> length ''00000000'' = 8 \<and>
   generateSentence 136 ''00000000'' = ''this text has a CRC of 00000000 and a length of 51.''"
proof -
  have h1: "(136 :: int32) AND 128 \<noteq> 0" by simp
  have h2: "length ''00000000'' = 8" by simp
  have len: "length (generateSentence 136 ''00000000'') = 51"
    by (simp add: generateSentence_def Let_def lengthText_def openingText_def bodyText_def
        capitalAfterOpening_def selfLength_two_digits length_decString_two_digits)
  have dec: "decString 51 = ''51''"
    by (simp add: decString.simps decDigit_def)
  from generateSentence_states_own_length [OF h1 h2] show ?thesis
    unfolding len dec
    by (simp add: openingText_def bodyText_def capitalAfterOpening_def)
qed

end
